theory Spec2Isabelle
  imports Complex_Main
begin

section \<open>The batch processing service (services/batch-service.js)\<close>

subsection \<open>Data model\<close>

text \<open>
  \<open>BatchState\<close> is the source's table of state strings; items use the first four.
\<close>

datatype BatchState = PENDING | PROCESSING | COMPLETED | FAILED | CANCELLED | PARTIAL

text \<open>
  A timestamp stands for the string \<open>new Date().toISOString()\<close>; every synchronous
  stretch of code reads the clock as one value \<open>now\<close>. A \<open>jsvalue\<close> is an opaque
  JavaScript value other than \<open>null\<close>/\<open>undefined\<close>; \<open>jsvalue option\<close> adds \<open>null\<close>
  (and \<open>undefined\<close>) as \<open>None\<close>.
\<close>

type_synonym timestamp = nat
type_synonym jsvalue = string

text \<open>
  An element of \<open>options.items\<close>: a string (the id itself, \<open>data\<close> is \<open>null\<close>) or an
  object carrying an \<open>id\<close> (the object is kept as \<open>data\<close>).
\<close>

datatype item_input = ItemString string | ItemObject string jsvalue

record BatchItem =
  index :: nat
  item_id :: string
  data :: "jsvalue option"
  item_state :: BatchState
  result :: "jsvalue option"
  error :: "string option"
  attempts :: nat
  item_startedAt :: "timestamp option"
  item_completedAt :: "timestamp option"

text \<open>
  The counters are JavaScript numbers that the code increments and decrements, hence
  \<open>int\<close>. \<open>percentComplete\<close> is \<open>None\<close> for \<open>NaN\<close> (a division by a zero total).
\<close>

record Progress =
  total :: int
  completed :: int
  failed :: int
  pending :: int
  processing :: int
  percentComplete :: "int option"

record Batch =
  batch_id :: string
  state :: BatchState
  operation :: string
  createdAt :: timestamp
  updatedAt :: timestamp
  startedAt :: "timestamp option"
  completedAt :: "timestamp option"
  items :: "BatchItem list"
  progress :: Progress
  options :: jsvalue
  results :: "(nat \<times> string \<times> jsvalue option) list"
  errors :: "(nat \<times> string \<times> string \<times> nat) list"

text \<open>
  What the caller's \<open>processor\<close> promise settles with: a result (possibly \<open>null\<close> or
  \<open>undefined\<close>), or a thrown value. A thrown \<open>null\<close>/\<open>undefined\<close> is \<open>Nullish\<close>; anything
  else is \<open>Exn m\<close> with \<open>m\<close> its \<open>message\<close> property (\<open>None\<close> when it has none).
\<close>

datatype thrown = Nullish | Exn "string option"

datatype outcome = Resolved "jsvalue option" | Rejected thrown

subsection \<open>The coroutine of \<open>processBatch\<close>\<close>

text \<open>
  \<open>processBatch\<close> is an async function: it runs in synchronous stretches separated by
  its \<open>await\<close>s. \<open>control\<close> is where one call of it stands between two stretches:
  \<^item> \<open>NotStarted\<close>: no call has been admitted for this batch object;
  \<^item> \<open>LoopHead i\<close>: the \<open>for\<close> loop is about to take the item at position \<open>i\<close>
  (after \<open>emit('started')\<close>, whose listeners run synchronously, or after
  \<open>await processItem\<close> of item \<open>i - 1\<close>);
  \<^item> \<open>AwaitProcessor i e\<close>: inside \<open>processItem\<close> of item \<open>i\<close>, at
  \<open>await processor(item.id, item.data)\<close>, with \<open>lastError = e\<close>;
  \<^item> \<open>AwaitSleep i e ms\<close>: at \<open>await sleep(delay)\<close> with \<open>lastError = e\<close>;
  \<^item> \<open>Returned\<close>: \<open>finalizeBatch\<close> has run and the promise is resolved;
  \<^item> \<open>Threw\<close>: an exception left \<open>processItem\<close> and the promise is rejected.

  \<open>batchEvents.emit\<close> and the \<open>Logger\<close> calls write nothing the service reads, and are
  left out. Listeners run synchronously inside \<open>emit\<close>; they are taken not to throw, and
  an operation of the service that a listener calls counts as an operation of its own
  right after the stretch that emitted (no stretch reads the batch state after its
  \<open>emit\<close>s; only the value of \<open>updatedAt\<close> can differ).
\<close>

datatype control =
    NotStarted
  | LoopHead nat
  | AwaitProcessor nat "thrown option"
  | AwaitSleep nat thrown nat
  | Returned
  | Threw

text \<open>Line 185: \<open>const delay = Math.pow(2, item.attempts) * 1000\<close>, in milliseconds.\<close>

definition delay :: "nat \<Rightarrow> nat" where
  "delay n = 2 ^ n * 1000"

text \<open>The default of \<open>processItem\<close>'s parameter \<open>maxRetries\<close>; \<open>processBatch\<close> passes none.\<close>

definition maxRetries_default :: nat where
  "maxRetries_default = 3"

text \<open>
  \<open>Math.round(((completed + failed) / total) * 100)\<close>, read in exact arithmetic
  (\<open>Math.round\<close> rounds a half up); \<open>None\<close> when the total is zero.
\<close>

definition round_percent :: "int \<Rightarrow> int \<Rightarrow> int option" where
  "round_percent done tot =
     (if tot = 0 then None else Some ((200 * done + tot) div (2 * tot)))"

definition updateProgress :: "timestamp \<Rightarrow> Batch \<Rightarrow> Batch" where
  "updateProgress now b =
     b\<lparr>progress := (progress b)\<lparr>percentComplete :=
            round_percent (completed (progress b) + failed (progress b)) (total (progress b))\<rparr>,
       updatedAt := now\<rparr>"

definition finalizeBatch :: "timestamp \<Rightarrow> Batch \<Rightarrow> Batch" where
  "finalizeBatch now b =
     (let b1 = b\<lparr>completedAt := Some now, updatedAt := now\<rparr> in
      if state b1 = CANCELLED then b1
      else if failed (progress b1) = 0 then b1\<lparr>state := COMPLETED\<rparr>
      else if completed (progress b1) = 0 then b1\<lparr>state := FAILED\<rparr>
      else b1\<lparr>state := PARTIAL\<rparr>)"

text \<open>Lines 138-142 of \<open>processItem\<close>: the item starts.\<close>

definition processItem_begin :: "timestamp \<Rightarrow> nat \<Rightarrow> Batch \<Rightarrow> Batch" where
  "processItem_begin now i b =
     b\<lparr>items := (items b)[i := (items b ! i)\<lparr>item_state := PROCESSING,
                                             item_startedAt := Some now\<rparr>],
       progress := (progress b)\<lparr>pending := pending (progress b) - 1,
                                processing := processing (progress b) + 1\<rparr>,
       updatedAt := now\<rparr>"

text \<open>Lines 158-178: the \<open>try\<close> block after the processor resolved with \<open>r\<close>.\<close>

definition processItem_success :: "timestamp \<Rightarrow> nat \<Rightarrow> jsvalue option \<Rightarrow> Batch \<Rightarrow> Batch" where
  "processItem_success now i r b =
     (let it = items b ! i in
      updateProgress now
        (b\<lparr>items := (items b)[i := it\<lparr>item_state := COMPLETED, result := r,
                                       item_completedAt := Some now\<rparr>],
           progress := (progress b)\<lparr>processing := processing (progress b) - 1,
                                    completed := completed (progress b) + 1\<rparr>,
           results := results b @ [(index it, item_id it, r)]\<rparr>))"

text \<open>
  Line 193: \<open>lastError?.message || 'Unknown error'\<close>. No \<open>lastError\<close>, no message and
  the empty message all give the default.
\<close>

fun error_message :: "thrown option \<Rightarrow> string" where
  "error_message (Some (Exn (Some m))) = (if m = [] then ''Unknown error'' else m)"
| "error_message _ = ''Unknown error''"

text \<open>Lines 191-211: all retries failed.\<close>

definition processItem_failed :: "timestamp \<Rightarrow> nat \<Rightarrow> thrown option \<Rightarrow> Batch \<Rightarrow> Batch" where
  "processItem_failed now i lastError b =
     (let it = items b ! i; msg = error_message lastError in
      updateProgress now
        (b\<lparr>items := (items b)[i := it\<lparr>item_state := FAILED, error := Some msg,
                                       item_completedAt := Some now\<rparr>],
           progress := (progress b)\<lparr>processing := processing (progress b) - 1,
                                    failed := failed (progress b) + 1\<rparr>,
           errors := errors b @ [(index it, item_id it, msg, attempts it)]\<rparr>))"

text \<open>
  The head of \<open>while (item.attempts < maxRetries)\<close>: either the next attempt starts
  (\<open>item.attempts++\<close>, then the processor is called and awaited), or the loop is left
  and the item fails; \<open>processItem\<close> then returns and the \<open>for\<close> loop goes on.
\<close>

definition processItem_attempt ::
  "nat \<Rightarrow> timestamp \<Rightarrow> nat \<Rightarrow> thrown option \<Rightarrow> Batch \<Rightarrow> Batch \<times> control" where
  "processItem_attempt maxRetries now i lastError b =
     (let it = items b ! i in
      if attempts it < maxRetries
      then (b\<lparr>items := (items b)[i := it\<lparr>attempts := attempts it + 1\<rparr>]\<rparr>,
            AwaitProcessor i lastError)
      else (processItem_failed now i lastError b, LoopHead (Suc i)))"

text \<open>
  The processor settled. On success \<open>processItem\<close> returns. In the \<open>catch\<close> block the
  log line reads \<open>error.message\<close>, a \<open>TypeError\<close> when the thrown value is
  \<open>null\<close>/\<open>undefined\<close>: that exception leaves \<open>processItem\<close> and \<open>processBatch\<close>.
  Otherwise the code sleeps when another attempt is left, and is back at the loop head.
\<close>

definition processItem_settled ::
  "nat \<Rightarrow> timestamp \<Rightarrow> nat \<Rightarrow> outcome \<Rightarrow> Batch \<Rightarrow> Batch \<times> control" where
  "processItem_settled maxRetries now i out b =
     (case out of
        Resolved r \<Rightarrow> (processItem_success now i r b, LoopHead (Suc i))
      | Rejected Nullish \<Rightarrow> (b, Threw)
      | Rejected (Exn m) \<Rightarrow>
          if attempts (items b ! i) < maxRetries
          then (b, AwaitSleep i (Exn m) (delay (attempts (items b ! i))))
          else processItem_attempt maxRetries now i (Some (Exn m)) b)"

text \<open>
  One turn of \<open>for (const item of batch.items)\<close> (lines 118-129): past the last item,
  or on a cancelled batch (\<open>break\<close>), \<open>finalizeBatch\<close> runs and \<open>processBatch\<close> returns;
  otherwise \<open>processItem\<close> starts on item \<open>i\<close> with \<open>lastError = null\<close>.
\<close>

definition processBatch_loop :: "nat \<Rightarrow> timestamp \<Rightarrow> nat \<Rightarrow> Batch \<Rightarrow> Batch \<times> control" where
  "processBatch_loop maxRetries now i b =
     (if i < length (items b) then
        if state b = CANCELLED then (finalizeBatch now b, Returned)
        else processItem_attempt maxRetries now i None (processItem_begin now i b)
      else (finalizeBatch now b, Returned))"

text \<open>
  What wakes a suspended coroutine: the loop going on, the processor's promise settling,
  or the sleep timer. A wake-up that does not fit where the coroutine stands does nothing.
\<close>

datatype wakeup = Continue | Settled outcome | TimerFired

fun resume :: "nat \<Rightarrow> timestamp \<Rightarrow> wakeup \<Rightarrow> Batch \<times> control \<Rightarrow> Batch \<times> control" where
  "resume mr now Continue (b, LoopHead i) = processBatch_loop mr now i b"
| "resume mr now (Settled out) (b, AwaitProcessor i e) = processItem_settled mr now i out b"
| "resume mr now TimerFired (b, AwaitSleep i e ms) = processItem_attempt mr now i (Some e) b"
| "resume mr now w c = c"

subsection \<open>The job store and the exported operations\<close>

text \<open>
  Batch objects are shared by reference between the \<open>Map\<close> \<open>batchJobs\<close> and the
  coroutines that process them: \<open>heap\<close> holds every batch object ever created, each
  with the coroutine working on it, at its address; \<open>batchJobs\<close> maps ids to addresses.
\<close>

record Service =
  heap :: "(Batch \<times> control) list"
  batchJobs :: "string \<rightharpoonup> nat"

definition init :: Service where
  "init = \<lparr>heap = [], batchJobs = Map.empty\<rparr>"

text \<open>Lines 63-73: \<open>items.map((item, index) => ...)\<close>.\<close>

fun new_item :: "nat \<times> item_input \<Rightarrow> BatchItem" where
  "new_item (n, ItemString s) =
     \<lparr>index = n, item_id = s, data = None, item_state = PENDING, result = None,
      error = None, attempts = 0, item_startedAt = None, item_completedAt = None\<rparr>"
| "new_item (n, ItemObject s d) =
     \<lparr>index = n, item_id = s, data = Some d, item_state = PENDING, result = None,
      error = None, attempts = 0, item_startedAt = None, item_completedAt = None\<rparr>"

text \<open>
  \<open>createBatch\<close>; \<open>bid\<close> is what \<open>generateBatchId()\<close> returned (built from the clock and
  \<open>Math.random\<close>).
\<close>

definition new_batch :: "timestamp \<Rightarrow> string \<Rightarrow> item_input list \<Rightarrow> string \<Rightarrow> jsvalue \<Rightarrow> Batch" where
  "new_batch now bid its opn opts =
     \<lparr>batch_id = bid, state = PENDING, operation = opn, createdAt = now, updatedAt = now,
      startedAt = None, completedAt = None,
      items = map new_item (enumerate 0 its),
      progress = \<lparr>total = int (length its), completed = 0, failed = 0,
                  pending = int (length its), processing = 0, percentComplete = Some 0\<rparr>,
      options = opts, results = [], errors = []\<rparr>"

definition createBatch ::
  "timestamp \<Rightarrow> string \<Rightarrow> item_input list \<Rightarrow> string \<Rightarrow> jsvalue \<Rightarrow> Service \<Rightarrow> Batch \<times> Service" where
  "createBatch now bid its opn opts svc =
     (let b = new_batch now bid its opn opts in
      (b, svc\<lparr>heap := heap svc @ [(b, NotStarted)],
             batchJobs := (batchJobs svc)(bid \<mapsto> length (heap svc))\<rparr>))"

datatype error = BatchNotFound | BatchNotPending

text \<open>Lines 110-112: the batch starts.\<close>

definition start_batch :: "timestamp \<Rightarrow> Batch \<Rightarrow> Batch" where
  "start_batch now b = b\<lparr>state := PROCESSING, startedAt := Some now, updatedAt := now\<rparr>"

text \<open>Lines 299-300: the only two fields \<open>cancelBatch\<close> writes.\<close>

definition mark_cancelled :: "timestamp \<Rightarrow> Batch \<Rightarrow> Batch" where
  "mark_cancelled now b = b\<lparr>state := CANCELLED, updatedAt := now\<rparr>"

text \<open>
  Lines 100-115 of \<open>processBatch\<close>: the call is refused, or the batch starts and the
  coroutine stands before the first turn of the loop. Only a Pending batch is admitted
  and no batch becomes Pending again, so a batch object never has two coroutines
  (lemma \<open>admitted_once\<close>).
\<close>

definition processBatch :: "timestamp \<Rightarrow> string \<Rightarrow> Service \<Rightarrow> error + Service" where
  "processBatch now bid svc =
     (case batchJobs svc bid of
        None \<Rightarrow> Inl BatchNotFound
      | Some a \<Rightarrow>
          let b = fst (heap svc ! a) in
          if state b \<noteq> PENDING then Inl BatchNotPending
          else Inr (svc\<lparr>heap := (heap svc)[a := (start_batch now b, LoopHead 0)]\<rparr>))"


definition cancelBatch :: "timestamp \<Rightarrow> string \<Rightarrow> Service \<Rightarrow> bool \<times> Service" where
  "cancelBatch now bid svc =
     (case batchJobs svc bid of
        None \<Rightarrow> (False, svc)
      | Some a \<Rightarrow>
          let b = fst (heap svc ! a) in
          if state b = COMPLETED \<or> state b = FAILED then (False, svc)
          else (True, svc\<lparr>heap := (heap svc)[a :=
                  (mark_cancelled now b, snd (heap svc ! a))]\<rparr>))"

definition deleteBatch :: "string \<Rightarrow> Service \<Rightarrow> bool \<times> Service" where
  "deleteBatch bid svc =
     (case batchJobs svc bid of
        None \<Rightarrow> (False, svc)
      | Some a \<Rightarrow>
          if state (fst (heap svc ! a)) = PROCESSING then (False, svc)
          else (True, svc\<lparr>batchJobs := (batchJobs svc)(bid := None)\<rparr>))"

text \<open>
  Everything that can happen to the service: a call of an exported operation, or the
  event loop resuming the coroutine of the batch object at an address. A refused
  \<open>processBatch\<close> leaves the service as it is.
\<close>

datatype op =
    CreateBatch string "item_input list" string jsvalue
  | ProcessBatch string
  | Resume nat wakeup
  | CancelBatch string
  | DeleteBatch string

fun exec :: "Service \<Rightarrow> timestamp \<times> op \<Rightarrow> Service" where
  "exec svc (now, CreateBatch bid its opn opts) = snd (createBatch now bid its opn opts svc)"
| "exec svc (now, ProcessBatch bid) =
     (case processBatch now bid svc of Inl e \<Rightarrow> svc | Inr svc' \<Rightarrow> svc')"
| "exec svc (now, Resume a w) =
     (if a < length (heap svc)
      then svc\<lparr>heap := (heap svc)[a := resume maxRetries_default now w (heap svc ! a)]\<rparr>
      else svc)"
| "exec svc (now, CancelBatch bid) = snd (cancelBatch now bid svc)"
| "exec svc (now, DeleteBatch bid) = snd (deleteBatch bid svc)"

definition run :: "(timestamp \<times> op) list \<Rightarrow> Service" where
  "run tr = foldl exec init tr"

section \<open>The request validator (middlewares/validator.js)\<close>














section \<open>Invariants of the service\<close>


text \<open>
  What one operation of the service can do to one batch object and its coroutine: admit
  \<open>processBatch\<close>, resume the coroutine, or mark the batch cancelled.
\<close>

inductive cell_step :: "Batch \<times> control \<Rightarrow> Batch \<times> control \<Rightarrow> bool" where
  step_start: "state b = PENDING \<Longrightarrow> cell_step (b, c) (start_batch now b, LoopHead 0)"
| step_resume: "cell_step c (resume maxRetries_default now w c)"
| step_cancel: "state b \<noteq> COMPLETED \<Longrightarrow> state b \<noteq> FAILED \<Longrightarrow>
     cell_step (b, c) (mark_cancelled now b, c)"

definition counters_ok :: "Batch \<Rightarrow> bool" where
  "counters_ok b \<longleftrightarrow>
     completed (progress b) + failed (progress b) + pending (progress b)
       + processing (progress b) = total (progress b)
     \<and> total (progress b) = int (length (items b))"


text \<open>The three shapes of an item: untouched, being processed, settled.\<close>

definition fresh :: "BatchItem \<Rightarrow> bool" where
  "fresh it \<longleftrightarrow>
     item_state it = PENDING \<and> attempts it = 0 \<and> result it = None \<and> error it = None"

definition in_process :: "BatchItem \<Rightarrow> bool" where
  "in_process it \<longleftrightarrow> item_state it = PROCESSING \<and> result it = None \<and> error it = None"

definition settled :: "BatchItem \<Rightarrow> bool" where
  "settled it \<longleftrightarrow>
     item_state it = COMPLETED \<and> error it = None
     \<or> item_state it = FAILED \<and> result it = None \<and> error it \<noteq> None"

text \<open>
  Where the sequential loop stands in the item list: between two items, \<open>k\<close> items
  settled and the others untouched; or inside \<open>processItem\<close> of item \<open>k\<close>.
\<close>

definition done_upto :: "nat \<Rightarrow> BatchItem list \<Rightarrow> bool" where
  "done_upto k its \<longleftrightarrow>
     k \<le> length its \<and> list_all settled (take k its) \<and> list_all fresh (drop k its)"

definition busy_at :: "nat \<Rightarrow> BatchItem list \<Rightarrow> bool" where
  "busy_at k its \<longleftrightarrow>
     k < length its \<and> list_all settled (take k its) \<and> in_process (its ! k)
     \<and> list_all fresh (drop (Suc k) its)"

definition count_state :: "BatchState \<Rightarrow> BatchItem list \<Rightarrow> nat" where
  "count_state s its = length (filter (\<lambda>it. item_state it = s) its)"

text \<open>The counters and the two logs agree with the items' states.\<close>

definition tallies :: "Batch \<Rightarrow> bool" where
  "tallies b \<longleftrightarrow>
     completed (progress b) = int (count_state COMPLETED (items b))
     \<and> length (results b) = count_state COMPLETED (items b)
     \<and> failed (progress b) = int (count_state FAILED (items b))
     \<and> length (errors b) = count_state FAILED (items b)"

definition unfinished :: "Batch \<Rightarrow> bool" where
  "unfinished b \<longleftrightarrow> (state b = PROCESSING \<or> state b = CANCELLED) \<and> completedAt b = None"

fun cell_inv :: "Batch \<times> control \<Rightarrow> bool" where
  "cell_inv (b, NotStarted) \<longleftrightarrow>
     done_upto 0 (items b) \<and> tallies b
     \<and> (state b = PENDING \<or> state b = CANCELLED) \<and> completedAt b = None"
| "cell_inv (b, LoopHead i) \<longleftrightarrow> done_upto i (items b) \<and> tallies b \<and> unfinished b"
| "cell_inv (b, AwaitProcessor i e) \<longleftrightarrow> busy_at i (items b) \<and> tallies b \<and> unfinished b"
| "cell_inv (b, AwaitSleep i e ms) \<longleftrightarrow> busy_at i (items b) \<and> tallies b \<and> unfinished b"
| "cell_inv (b, Returned) \<longleftrightarrow>
     (\<exists>k. done_upto k (items b)) \<and> tallies b
     \<and> (state b = COMPLETED \<or> state b = FAILED \<or> state b = PARTIAL \<or> state b = CANCELLED)
     \<and> completedAt b \<noteq> None"
| "cell_inv (b, Threw) \<longleftrightarrow> (\<exists>k. busy_at k (items b)) \<and> tallies b \<and> unfinished b"





section \<open>Sample runs\<close>

text \<open>
  Two items: the first succeeds at once, the second fails three times; the loop ends
  and the batch is finalized.
\<close>

definition tr_partial :: "(timestamp \<times> op) list" where
  "tr_partial =
     [(0, CreateBatch ''b1'' [ItemString ''s1'', ItemString ''s2''] ''process'' ''{}''),
      (1, ProcessBatch ''b1''),
      (2, Resume 0 Continue),
      (3, Resume 0 (Settled (Resolved (Some ''ok'')))),
      (4, Resume 0 Continue),
      (5, Resume 0 (Settled (Rejected (Exn (Some ''boom''))))),
      (6, Resume 0 TimerFired),
      (7, Resume 0 (Settled (Rejected (Exn (Some ''boom''))))),
      (8, Resume 0 TimerFired),
      (9, Resume 0 (Settled (Rejected (Exn (Some ''boom''))))),
      (10, Resume 0 Continue)]"


text \<open>The same run, stopped while the second item awaits its first attempt.\<close>

definition tr_retrying :: "(timestamp \<times> op) list" where
  "tr_retrying = take 5 tr_partial"





text \<open>A batch that is created and cancelled; \<open>processBatch\<close> is then called on it.\<close>

definition tr_created :: "(timestamp \<times> op) list" where
  "tr_created =
     [(0, CreateBatch ''b3'' [ItemString ''s1'', ItemString ''s2''] ''process'' ''{}'')]"

definition tr_cancelled_pending :: "(timestamp \<times> op) list" where
  "tr_cancelled_pending = tr_created @ [(1, CancelBatch ''b3'')]"


section \<open>Proofs\<close>

subsection \<open>From one batch object to the whole service\<close>


lemma exec_length: "length (heap svc) \<le> length (heap (exec svc x))"
proof (cases x)
  case (Pair now opr)
  show ?thesis unfolding Pair
    by (cases opr)
       (auto simp: createBatch_def processBatch_def cancelBatch_def deleteBatch_def Let_def
             split: option.splits sum.splits)
qed


lemma exec_old_cell:
  assumes "a < length (heap svc)"
  shows "heap (exec svc x) ! a = heap svc ! a \<or> cell_step (heap svc ! a) (heap (exec svc x) ! a)"
proof (cases x)
  case (Pair now opr)
  show ?thesis
  proof (cases opr)
    case (CreateBatch bid its opn opts)
    with Pair assms show ?thesis by (simp add: createBatch_def Let_def nth_append)
  next
    case (ProcessBatch bid)
    show ?thesis
    proof (cases "batchJobs svc bid")
      case None
      with Pair ProcessBatch show ?thesis by (simp add: processBatch_def)
    next
      case (Some a')
      show ?thesis
      proof (cases "a' = a")
        case True
        show ?thesis
        proof (cases "state (fst (heap svc ! a)) = PENDING")
          case pend: True
          have "cell_step (fst (heap svc ! a), snd (heap svc ! a))
                  (start_batch now (fst (heap svc ! a)), LoopHead 0)"
            using pend by (intro step_start) simp
          with True pend Pair ProcessBatch Some assms show ?thesis
            by (simp add: processBatch_def Let_def)
        next
          case False
          with True Pair ProcessBatch Some show ?thesis
            by (simp add: processBatch_def Let_def)
        qed
      next
        case False
        with Pair ProcessBatch Some assms show ?thesis
          by (simp add: processBatch_def Let_def)
      qed
    qed
  next
    case (Resume a' w)
    show ?thesis
    proof (cases "a' = a")
      case True
      with Pair Resume assms show ?thesis by (simp add: step_resume)
    next
      case False
      with Pair Resume assms show ?thesis by simp
    qed
  next
    case (CancelBatch bid)
    show ?thesis
    proof (cases "batchJobs svc bid")
      case None
      with Pair CancelBatch show ?thesis by (simp add: cancelBatch_def)
    next
      case (Some a')
      show ?thesis
      proof (cases "a' = a")
        case True
        show ?thesis
        proof (cases "state (fst (heap svc ! a)) = COMPLETED \<or> state (fst (heap svc ! a)) = FAILED")
          case fin: True
          with True Pair CancelBatch Some show ?thesis
            by (simp add: cancelBatch_def Let_def)
        next
          case False
          then have "cell_step (fst (heap svc ! a), snd (heap svc ! a))
                  (mark_cancelled now (fst (heap svc ! a)), snd (heap svc ! a))"
            by (intro step_cancel) simp_all
          with True False Pair CancelBatch Some assms show ?thesis
            by (simp add: cancelBatch_def Let_def)
        qed
      next
        case False
        with Pair CancelBatch Some assms show ?thesis
          by (simp add: cancelBatch_def Let_def)
      qed
    qed
  next
    case (DeleteBatch bid)
    with Pair show ?thesis
      by (simp add: deleteBatch_def split: option.splits)
  qed
qed

lemma exec_new_cell:
  assumes "a < length (heap (exec svc x))" and "\<not> a < length (heap svc)"
  shows "\<exists>now bid its opn opts. heap (exec svc x) ! a = (new_batch now bid its opn opts, NotStarted)"
proof (cases x)
  case (Pair now opr)
  show ?thesis
  proof (cases opr)
    case (CreateBatch bid its opn opts)
    with Pair assms have "a = length (heap svc)"
      by (simp add: createBatch_def Let_def)
    with Pair CreateBatch have "heap (exec svc x) ! a = (new_batch now bid its opn opts, NotStarted)"
      by (simp add: createBatch_def Let_def)
    then show ?thesis by blast
  next
    case (ProcessBatch bid)
    with Pair assms show ?thesis
      by (auto simp: processBatch_def Let_def split: option.splits if_splits)
  next
    case (Resume a' w)
    with Pair assms show ?thesis by (auto split: if_splits)
  next
    case (CancelBatch bid)
    with Pair assms show ?thesis
      by (auto simp: cancelBatch_def Let_def split: option.splits if_splits)
  next
    case (DeleteBatch bid)
    with Pair assms show ?thesis
      by (auto simp: deleteBatch_def split: option.splits if_splits)
  qed
qed

lemma run_snoc: "run (tr @ [x]) = exec (run tr) x"
  by (simp add: run_def)


lemma run_invariant:
  assumes new: "\<And>now bid its opn opts. P (new_batch now bid its opn opts, NotStarted)"
    and step: "\<And>c c'. P c \<Longrightarrow> cell_step c c' \<Longrightarrow> P c'"
  shows "a < length (heap (run tr)) \<Longrightarrow> P (heap (run tr) ! a)"
proof (induction tr arbitrary: a rule: rev_induct)
  case Nil
  then show ?case by (simp add: run_def init_def)
next
  case (snoc x tr)
  show ?case
  proof (cases "a < length (heap (run tr))")
    case True
    then have "P (heap (run tr) ! a)" by (rule snoc.IH)
    with exec_old_cell [OF True, of x] step [of "heap (run tr) ! a" "heap (exec (run tr) x) ! a"]
    show ?thesis
      by (auto simp: run_snoc)
  next
    case False
    with snoc.prems exec_new_cell [of a "run tr" x] obtain now bid its opn opts
      where "heap (run (tr @ [x])) ! a = (new_batch now bid its opn opts, NotStarted)"
      by (auto simp: run_snoc)
    with new show ?thesis by simp
  qed
qed

lemma foldl_exec_length: "length (heap svc) \<le> length (heap (foldl exec svc ops))"
proof (induction ops rule: rev_induct)
  case Nil
  show ?case by simp
next
  case (snoc x ops)
  with exec_length [of "foldl exec svc ops" x] show ?case by simp
qed

lemma foldl_exec_stable:
  assumes step: "\<And>c c'. Q c \<Longrightarrow> cell_step c c' \<Longrightarrow> Q c'"
    and a: "a < length (heap svc)" and Q: "Q (heap svc ! a)"
  shows "Q (heap (foldl exec svc ops) ! a)"
proof (induction ops rule: rev_induct)
  case Nil
  from Q show ?case by simp
next
  case (snoc x ops)
  have "a < length (heap (foldl exec svc ops))"
    using a foldl_exec_length [of svc ops] by simp
  from exec_old_cell [OF this, of x] snoc
    step [of "heap (foldl exec svc ops) ! a" "heap (exec (foldl exec svc ops) x) ! a"]
  show ?case by auto
qed

subsection \<open>Counters and attempts\<close>

lemmas coroutine_defs =
  processBatch_loop_def processItem_begin_def processItem_attempt_def processItem_settled_def
  processItem_success_def processItem_failed_def updateProgress_def finalizeBatch_def

lemma counters_ok_resume:
  "counters_ok (fst c) \<Longrightarrow> counters_ok (fst (resume mr now w c))"
  by (cases "(mr, now, w, c)" rule: resume.cases)
     (auto simp: counters_ok_def coroutine_defs Let_def split: outcome.splits thrown.splits)

lemma counters_ok_step:
  "cell_step c c' \<Longrightarrow> counters_ok (fst c) \<Longrightarrow> counters_ok (fst c')"
  by (induction rule: cell_step.induct)
     (simp_all add: counters_ok_resume, simp_all add: counters_ok_def start_batch_def mark_cancelled_def)

lemma counters_ok_new: "counters_ok (new_batch now bid its opn opts)"
  by (simp add: counters_ok_def new_batch_def)





subsection \<open>The loop's position in the item list\<close>

lemma count_state_update:
  "i < length its \<Longrightarrow>
   count_state s (its[i := y]) + (if item_state (its ! i) = s then 1 else 0)
     = count_state s its + (if item_state y = s then 1 else 0)"
proof (induction its arbitrary: i)
  case Nil
  then show ?case by simp
next
  case (Cons x its)
  show ?case
  proof (cases i)
    case 0
    then show ?thesis by (simp add: count_state_def)
  next
    case (Suc j)
    with Cons.prems have "j < length its" by simp
    from Cons.IH [OF this] Suc show ?thesis by (simp add: count_state_def)
  qed
qed

lemma busy_fresh [simp]: "fresh it \<Longrightarrow> item_state it \<noteq> COMPLETED \<and> item_state it \<noteq> FAILED"
  by (simp add: fresh_def)

lemma done_upto_fresh:
  assumes "done_upto k its" and "k < length its"
  shows "fresh (its ! k)" and "list_all fresh (drop (Suc k) its)"
proof -
  from assms have "list_all fresh (its ! k # drop (Suc k) its)"
    by (simp add: done_upto_def Cons_nth_drop_Suc)
  then show "fresh (its ! k)" and "list_all fresh (drop (Suc k) its)" by simp_all
qed

lemma done_upto_begin:
  assumes "done_upto k its" and "k < length its"
  shows "busy_at k (its[k := (its ! k)\<lparr>item_state := PROCESSING, item_startedAt := t\<rparr>])"
  using assms done_upto_fresh [OF assms]
  by (simp add: busy_at_def done_upto_def fresh_def in_process_def)

lemma busy_at_attempt:
  assumes "busy_at k its"
  shows "busy_at k (its[k := (its ! k)\<lparr>attempts := n\<rparr>])"
  using assms by (simp add: busy_at_def in_process_def)

lemma busy_at_settle:
  assumes "busy_at k its" and "settled y"
  shows "done_upto (Suc k) (its[k := y])"
proof -
  from assms have k: "k < length its" by (simp add: busy_at_def)
  then have "take (Suc k) (its[k := y]) = take k its @ [y]"
    by (simp add: take_Suc_conv_app_nth)
  with assms k show ?thesis
    by (simp add: busy_at_def done_upto_def)
qed

lemma count_state_busy:
  assumes "busy_at i its" and "s = COMPLETED \<or> s = FAILED"
  shows "count_state s (its[i := y]) = count_state s its + (if item_state y = s then 1 else 0)"
proof -
  from assms have "i < length its" and "item_state (its ! i) \<noteq> s"
    by (auto simp: busy_at_def in_process_def)
  with count_state_update [of i its s y] show ?thesis by simp
qed

lemma cell_inv_failed:
  assumes "busy_at i (items b)" and "tallies b" and "unfinished b"
  shows "cell_inv (processItem_failed now i e b, LoopHead (Suc i))"
proof -
  let ?y = "(items b ! i)\<lparr>item_state := FAILED, error := Some (error_message e),
                           item_completedAt := Some now\<rparr>"
  from assms(1) have "settled ?y"
    by (simp add: settled_def busy_at_def in_process_def)
  with assms(1) have "done_upto (Suc i) ((items b)[i := ?y])"
    by (rule busy_at_settle)
  moreover have "count_state COMPLETED ((items b)[i := ?y]) = count_state COMPLETED (items b)"
    and "count_state FAILED ((items b)[i := ?y]) = Suc (count_state FAILED (items b))"
    using count_state_busy [OF assms(1)] by simp_all
  ultimately show ?thesis
    using assms(2,3)
    by (simp add: processItem_failed_def updateProgress_def Let_def tallies_def unfinished_def)
qed

lemma cell_inv_success:
  assumes "busy_at i (items b)" and "tallies b" and "unfinished b"
  shows "cell_inv (processItem_success now i r b, LoopHead (Suc i))"
proof -
  let ?y = "(items b ! i)\<lparr>item_state := COMPLETED, result := r,
                           item_completedAt := Some now\<rparr>"
  from assms(1) have "settled ?y"
    by (simp add: settled_def busy_at_def in_process_def)
  with assms(1) have "done_upto (Suc i) ((items b)[i := ?y])"
    by (rule busy_at_settle)
  moreover have "count_state FAILED ((items b)[i := ?y]) = count_state FAILED (items b)"
    and "count_state COMPLETED ((items b)[i := ?y]) = Suc (count_state COMPLETED (items b))"
    using count_state_busy [OF assms(1)] by simp_all
  ultimately show ?thesis
    using assms(2,3)
    by (simp add: processItem_success_def updateProgress_def Let_def tallies_def unfinished_def)
qed

lemma cell_inv_attempt:
  assumes "busy_at i (items b)" and "tallies b" and "unfinished b"
  shows "cell_inv (processItem_attempt mr now i e b)"
proof (cases "attempts (items b ! i) < mr")
  case True
  let ?y = "(items b ! i)\<lparr>attempts := attempts (items b ! i) + 1\<rparr>"
  have "busy_at i ((items b)[i := ?y])"
    using assms(1) by (rule busy_at_attempt)
  moreover have "count_state FAILED ((items b)[i := ?y]) = count_state FAILED (items b)"
    and "count_state COMPLETED ((items b)[i := ?y]) = count_state COMPLETED (items b)"
    using count_state_busy [OF assms(1), of _ ?y] assms(1)
    by (simp_all add: busy_at_def in_process_def)
  ultimately show ?thesis
    using True assms(2,3)
    by (simp add: processItem_attempt_def Let_def tallies_def unfinished_def)
next
  case False
  with cell_inv_failed [OF assms] show ?thesis
    by (simp add: processItem_attempt_def Let_def)
qed

lemma cell_inv_settled:
  assumes "busy_at i (items b)" and "tallies b" and "unfinished b"
  shows "cell_inv (processItem_settled mr now i out b)"
proof (cases out)
  case (Resolved r)
  with cell_inv_success [OF assms] show ?thesis
    by (simp add: processItem_settled_def)
next
  case (Rejected t)
  show ?thesis
  proof (cases t)
    case Nullish
    with Rejected assms show ?thesis
      by (auto simp: processItem_settled_def)
  next
    case (Exn m)
    with Rejected assms cell_inv_attempt [OF assms] show ?thesis
      by (simp add: processItem_settled_def)
  qed
qed

lemma cell_inv_finalize:
  assumes "done_upto k (items b)" and "tallies b" and "unfinished b"
  shows "cell_inv (finalizeBatch now b, Returned)"
proof -
  have "items (finalizeBatch now b) = items b"
    by (simp add: finalizeBatch_def Let_def)
  with assms(1) have "\<exists>k. done_upto k (items (finalizeBatch now b))" by auto
  moreover have "tallies (finalizeBatch now b)"
    using assms(2) by (simp add: finalizeBatch_def Let_def tallies_def)
  moreover have "completedAt (finalizeBatch now b) \<noteq> None"
    by (simp add: finalizeBatch_def Let_def)
  moreover have "state (finalizeBatch now b) = COMPLETED \<or> state (finalizeBatch now b) = FAILED
      \<or> state (finalizeBatch now b) = PARTIAL \<or> state (finalizeBatch now b) = CANCELLED"
    by (simp add: finalizeBatch_def Let_def)
  ultimately show ?thesis by simp
qed

lemma cell_inv_loop:
  assumes "cell_inv (b, LoopHead i)"
  shows "cell_inv (processBatch_loop mr now i b)"
proof (cases "i < length (items b) \<and> state b \<noteq> CANCELLED")
  case True
  let ?b = "processItem_begin now i b"
  from assms True have f: "fresh (items b ! i)"
    using done_upto_fresh(1) [of i "items b"] by simp
  from assms True have "busy_at i (items ?b)"
    using done_upto_begin [of i "items b" "Some now"]
    by (simp add: processItem_begin_def)
  moreover have "count_state s (items ?b) = count_state s (items b)"
    if "s = COMPLETED \<or> s = FAILED" for s
    using count_state_update [of i "items b" s
        "(items b ! i)\<lparr>item_state := PROCESSING, item_startedAt := Some now\<rparr>"] True f that
    by (auto simp: processItem_begin_def fresh_def)
  then have "tallies ?b"
    using assms by (simp add: tallies_def) (simp add: processItem_begin_def)
  moreover have "unfinished ?b"
    using assms by (simp add: unfinished_def processItem_begin_def)
  ultimately have "cell_inv (processItem_attempt mr now i None ?b)"
    by (rule cell_inv_attempt)
  with True show ?thesis by (simp add: processBatch_loop_def)
next
  case False
  from assms have "cell_inv (finalizeBatch now b, Returned)"
    by (intro cell_inv_finalize [of i]) simp_all
  with False show ?thesis by (auto simp: processBatch_loop_def)
qed

lemma cell_inv_resume: "cell_inv c \<Longrightarrow> cell_inv (resume mr now w c)"
proof (induction mr now w c rule: resume.induct)
  case (1 mr now b i)
  then show ?case by (simp add: cell_inv_loop)
next
  case (2 mr now out b i e)
  then show ?case by (simp add: cell_inv_settled)
next
  case (3 mr now b i e ms)
  then show ?case by (simp add: cell_inv_attempt)
qed simp_all

lemma cell_inv_step: "cell_step c c' \<Longrightarrow> cell_inv c \<Longrightarrow> cell_inv c'"
proof (induction rule: cell_step.induct)
  case (step_start b c now)
  then show ?case
    by (cases c) (auto simp: start_batch_def tallies_def unfinished_def)
next
  case (step_resume c now w)
  then show ?case by (simp add: cell_inv_resume)
next
  case (step_cancel b c now)
  then show ?case
    by (cases c) (auto simp: mark_cancelled_def tallies_def unfinished_def)
qed

lemma fresh_new_item: "fresh (new_item p)"
  by (cases p rule: new_item.cases) (simp_all add: fresh_def)

lemma cell_inv_new: "cell_inv (new_batch now bid its opn opts, NotStarted)"
proof -
  have "list_all fresh (map new_item xs)" for xs
    by (induction xs) (simp_all add: fresh_new_item)
  moreover have "count_state s (map new_item xs) = 0" if "s \<noteq> PENDING" for s xs
    using that fresh_new_item by (induction xs) (auto simp: count_state_def fresh_def)
  ultimately show ?thesis
    by (simp add: new_batch_def done_upto_def tallies_def)
qed

lemma cell_inv_run: "a < length (heap (run tr)) \<Longrightarrow> cell_inv (heap (run tr) ! a)"
  using run_invariant [where P = cell_inv, OF cell_inv_new] cell_inv_step by blast




subsection \<open>After a cancellation\<close>


lemma attempt_flow:
  "state (fst (processItem_attempt mr now i e b)) = state b
   \<and> (snd (processItem_attempt mr now i e b) = AwaitProcessor i e
      \<or> snd (processItem_attempt mr now i e b) = LoopHead (Suc i))"
  by (simp add: processItem_attempt_def processItem_failed_def updateProgress_def Let_def)

lemma settled_flow:
  "state (fst (processItem_settled mr now i out b)) = state b
   \<and> (snd (processItem_settled mr now i out b) = LoopHead (Suc i)
      \<or> (\<exists>e. snd (processItem_settled mr now i out b) = AwaitProcessor i e)
      \<or> (\<exists>e ms. snd (processItem_settled mr now i out b) = AwaitSleep i e ms)
      \<or> processItem_settled mr now i out b = (b, Threw))"
  using attempt_flow [of mr now i _ b]
  by (auto simp: processItem_settled_def processItem_success_def updateProgress_def Let_def
           split: outcome.splits thrown.splits)

lemma loop_cancelled:
  "state b = CANCELLED \<Longrightarrow>
     processBatch_loop mr now i b = (b\<lparr>completedAt := Some now, updatedAt := now\<rparr>, Returned)"
  by (simp add: processBatch_loop_def finalizeBatch_def Let_def)









subsection \<open>One coroutine per batch, and the states that stay\<close>

lemma admitted_once:
  assumes "a < length (heap (run tr))" and "state (fst (heap (run tr) ! a)) = PENDING"
  shows "snd (heap (run tr) ! a) = NotStarted"
proof -
  from assms(1) have "cell_inv (fst (heap (run tr) ! a), snd (heap (run tr) ! a))"
    using cell_inv_run [of a tr] by simp
  with assms(2) show ?thesis
    by (cases "snd (heap (run tr) ! a)") (auto simp: unfinished_def)
qed

lemma resume_keeps_cancelled:
  assumes "state (fst c) = CANCELLED"
  shows "state (fst (resume mr now w c)) = CANCELLED"
proof (cases "(mr, now, w, c)" rule: resume.cases)
  case (1 mr' now' b i)
  with assms show ?thesis by (simp add: loop_cancelled)
next
  case (2 mr' now' out b i e)
  with assms settled_flow [of mr now i out b] show ?thesis by simp
next
  case (3 mr' now' b i e ms)
  with assms attempt_flow [of mr now i "Some e" b] show ?thesis by simp
qed (use assms in simp_all)

lemma finished_step:
  assumes "cell_step c c'" and "cell_inv c"
    and "state (fst c) = COMPLETED \<or> state (fst c) = FAILED \<or> state (fst c) = CANCELLED"
  shows "state (fst c') = state (fst c)"
  using assms
proof (induction rule: cell_step.induct)
  case (step_start b c now)
  then show ?case by simp
next
  case (step_resume c now w)
  show ?case
  proof (cases "state (fst c) = CANCELLED")
    case True
    then show ?thesis by (simp add: resume_keeps_cancelled)
  next
    case False
    with step_resume have "snd c = Returned"
      by (cases c; cases "snd c") (auto simp: unfinished_def)
    then have "resume maxRetries_default now w c = c"
      by (cases c; cases w) simp_all
    then show ?thesis by simp
  qed
next
  case (step_cancel b c now)
  then show ?case by (simp add: mark_cancelled_def)
qed

lemma terminal_absorbing:
  assumes "a < length (heap (run tr))"
    and "state (fst (heap (run tr) ! a)) = s"
    and "s = COMPLETED \<or> s = FAILED \<or> s = CANCELLED"
  shows "state (fst (heap (foldl exec (run tr) ops) ! a)) = s"
proof -
  define Q where "Q = (\<lambda>c. cell_inv c \<and> state (fst c) = s)"
  have step: "Q c'" if q: "Q c" and st: "cell_step c c'" for c c'
  proof -
    from q have inv: "cell_inv c" and s: "state (fst c) = s" by (simp_all add: Q_def)
    from cell_inv_step [OF st inv] have "cell_inv c'" .
    moreover from finished_step [OF st inv] s assms(3) have "state (fst c') = s" by simp
    ultimately show ?thesis by (simp add: Q_def)
  qed
  from assms(1) have "cell_inv (heap (run tr) ! a)" by (rule cell_inv_run)
  with assms(2) have "Q (heap (run tr) ! a)" by (simp add: Q_def)
  with step assms(1) have "Q (heap (foldl exec (run tr) ops) ! a)"
    by (rule foldl_exec_stable)
  then show ?thesis by (simp add: Q_def)
qed

subsection \<open>The sample runs, evaluated\<close>

lemmas eval_defs =
  init_def createBatch_def new_batch_def processBatch_def start_batch_def
  cancelBatch_def mark_cancelled_def deleteBatch_def coroutine_defs round_percent_def
  maxRetries_default_def delay_def enumerate_eq_zip Let_def

lemma run_tr_partial:
  "run tr_partial =
     \<lparr>heap = [(\<lparr>batch_id = ''b1'', state = PARTIAL, operation = ''process'', createdAt = 0,
                updatedAt = 10, startedAt = Some 1, completedAt = Some 10,
                items = [\<lparr>index = 0, item_id = ''s1'', data = None, item_state = COMPLETED,
                          result = Some ''ok'', error = None, attempts = 1,
                          item_startedAt = Some 2, item_completedAt = Some 3\<rparr>,
                         \<lparr>index = 1, item_id = ''s2'', data = None, item_state = FAILED,
                          result = None, error = Some ''boom'', attempts = 3,
                          item_startedAt = Some 4, item_completedAt = Some 9\<rparr>],
                progress = \<lparr>total = 2, completed = 1, failed = 1, pending = 0, processing = 0,
                            percentComplete = Some 100\<rparr>,
                options = ''{}'', results = [(0, ''s1'', Some ''ok'')],
                errors = [(1, ''s2'', ''boom'', 3)]\<rparr>, Returned)],
      batchJobs = [''b1'' \<mapsto> 0]\<rparr>"
  by (simp add: tr_partial_def run_def eval_defs)








lemma run_tr_retrying:
  "run tr_retrying =
     \<lparr>heap = [(\<lparr>batch_id = ''b1'', state = PROCESSING, operation = ''process'', createdAt = 0,
                updatedAt = 4, startedAt = Some 1, completedAt = None,
                items = [\<lparr>index = 0, item_id = ''s1'', data = None, item_state = COMPLETED,
                          result = Some ''ok'', error = None, attempts = 1,
                          item_startedAt = Some 2, item_completedAt = Some 3\<rparr>,
                         \<lparr>index = 1, item_id = ''s2'', data = None, item_state = PROCESSING,
                          result = None, error = None, attempts = 1,
                          item_startedAt = Some 4, item_completedAt = None\<rparr>],
                progress = \<lparr>total = 2, completed = 1, failed = 0, pending = 0, processing = 1,
                            percentComplete = Some 50\<rparr>,
                options = ''{}'', results = [(0, ''s1'', Some ''ok'')], errors = []\<rparr>,
               AwaitProcessor 1 None)],
      batchJobs = [''b1'' \<mapsto> 0]\<rparr>"
  by (simp add: tr_retrying_def tr_partial_def run_def eval_defs)

lemma run_tr_cancelled_pending:
  "run tr_cancelled_pending =
     \<lparr>heap = [(\<lparr>batch_id = ''b3'', state = CANCELLED, operation = ''process'', createdAt = 0,
                updatedAt = 1, startedAt = None, completedAt = None,
                items = [\<lparr>index = 0, item_id = ''s1'', data = None, item_state = PENDING,
                          result = None, error = None, attempts = 0,
                          item_startedAt = None, item_completedAt = None\<rparr>,
                         \<lparr>index = 1, item_id = ''s2'', data = None, item_state = PENDING,
                          result = None, error = None, attempts = 0,
                          item_startedAt = None, item_completedAt = None\<rparr>],
                progress = \<lparr>total = 2, completed = 0, failed = 0, pending = 2, processing = 0,
                            percentComplete = Some 0\<rparr>,
                options = ''{}'', results = [], errors = []\<rparr>, NotStarted)],
      batchJobs = [''b3'' \<mapsto> 0]\<rparr>"
  by (simp add: tr_cancelled_pending_def tr_created_def run_def eval_defs)

subsection \<open>The validator on a batch request\<close>


section \<open>The claims\<close>

text \<open>
  C1. In every state the service reaches, for every batch object (stored or since
  deleted): completed + failed + pending + processing equals total, and total equals
  the number of items. The states between two operations are the observation points:
  after creation, after an item starts, after an item's outcome, after finalization.
\<close>

theorem progress_partition:
  assumes "a < length (heap (run tr))"
  shows "completed (progress (fst (heap (run tr) ! a)))
           + failed (progress (fst (heap (run tr) ! a)))
           + pending (progress (fst (heap (run tr) ! a)))
           + processing (progress (fst (heap (run tr) ! a)))
         = total (progress (fst (heap (run tr) ! a)))
         \<and> total (progress (fst (heap (run tr) ! a)))
             = int (length (items (fst (heap (run tr) ! a))))"
proof -
  have "counters_ok (fst (heap (run tr) ! a))"
    using run_invariant [where P = "\<lambda>c. counters_ok (fst c)" and a = a and tr = tr]
      counters_ok_new counters_ok_step assms
    by simp
  then show ?thesis by (simp add: counters_ok_def)
qed

theorem progress_partition_witness:
  "0 < length (heap (run tr_retrying))
   \<and> completed (progress (fst (heap (run tr_retrying) ! 0))) = 1
   \<and> failed (progress (fst (heap (run tr_retrying) ! 0))) = 0
   \<and> pending (progress (fst (heap (run tr_retrying) ! 0))) = 0
   \<and> processing (progress (fst (heap (run tr_retrying) ! 0))) = 1
   \<and> total (progress (fst (heap (run tr_retrying) ! 0))) = 2
   \<and> length (items (fst (heap (run tr_retrying) ! 0))) = 2"
proof -
  have h: "0 < length (heap (run tr_retrying))" by (simp add: run_tr_retrying)
  from progress_partition [OF h] h show ?thesis by (simp add: run_tr_retrying)
qed







text \<open>
  C4. The delay before the retry that follows failed attempt number \<open>n\<close> is a function
  of \<open>n\<close> alone, \<open>2 ^ n\<close> seconds (in milliseconds: 2000, 4000, 8000 for \<open>n\<close> = 1, 2, 3),
  strictly increasing in \<open>n\<close>; it is the delay \<open>processItem\<close> sleeps for when the
  processor throws and an attempt is left.
\<close>

theorem backoff_delay:
  "delay n = 2 ^ n * 1000
   \<and> delay 1 = 2000 \<and> delay 2 = 4000 \<and> delay 3 = 8000
   \<and> (m < n \<longrightarrow> delay m < delay n)
   \<and> (attempts (items b ! i) < mr \<longrightarrow>
        snd (processItem_settled mr now i (Rejected (Exn msg)) b)
          = AwaitSleep i (Exn msg) (2 ^ attempts (items b ! i) * 1000))"
  by (simp add: delay_def processItem_settled_def)

theorem backoff_delay_witness:
  "(1::nat) < 2 \<and> delay 1 < delay 2
   \<and> attempts (items (fst (heap (run tr_retrying) ! 0)) ! 1) = 1
   \<and> attempts (items (fst (heap (run tr_retrying) ! 0)) ! 1) < maxRetries_default
   \<and> snd (processItem_settled maxRetries_default 5 1 (Rejected (Exn (Some ''boom'')))
            (fst (heap (run tr_retrying) ! 0)))
       = AwaitSleep 1 (Exn (Some ''boom'')) 2000"
proof -
  have h: "attempts (items (fst (heap (run tr_retrying) ! 0)) ! 1) = 1"
    by (simp add: run_tr_retrying)
  from backoff_delay [of 2 1 "fst (heap (run tr_retrying) ! 0)" 1 maxRetries_default 5
      "Some ''boom''"] h
  show ?thesis by (simp add: maxRetries_default_def)
qed








text \<open>
  C8 fails on the code at a Partial batch: \<open>cancelBatch\<close> refuses Completed and Failed
  batches only, so it accepts a batch that finished as Partial and makes it Cancelled.
\<close>

theorem cancel_partial_job:
  "snd (heap (run tr_partial) ! 0) = Returned
   \<and> state (fst (heap (run tr_partial) ! 0)) = PARTIAL
   \<and> fst (cancelBatch 11 ''b1'' (run tr_partial))
   \<and> state (fst (heap (snd (cancelBatch 11 ''b1'' (run tr_partial))) ! 0)) = CANCELLED"
  by (simp add: run_tr_partial eval_defs)

text \<open>
  C9, as stated, fails on a batch cancelled before it started: \<open>cancelBatch\<close> does not
  write \<open>completedAt\<close>, and \<open>processBatch\<close>, the only caller of \<open>finalizeBatch\<close>, then
  refuses the batch.
\<close>

theorem cancelled_pending_no_completedAt:
  "state (fst (heap (run tr_cancelled_pending) ! 0)) = CANCELLED
   \<and> completedAt (fst (heap (run tr_cancelled_pending) ! 0)) = None
   \<and> processBatch 2 ''b3'' (run tr_cancelled_pending) = Inl BatchNotPending"
  by (simp add: run_tr_cancelled_pending eval_defs)

text \<open>
  C9, amended. In every state the service reaches, a batch that is Completed, Failed or
  Partial has \<open>completedAt\<close> set; and \<open>completedAt\<close> is set exactly when the batch's
  \<open>processBatch\<close> call has run \<open>finalizeBatch\<close> and returned. So a Cancelled batch has it
  only from the moment its loop has seen the cancellation, and one cancelled while
  Pending never has it.
\<close>

theorem completedAt_when_finalized:
  assumes "a < length (heap (run tr))"
  shows "(state (fst (heap (run tr) ! a)) = COMPLETED \<or> state (fst (heap (run tr) ! a)) = FAILED
          \<or> state (fst (heap (run tr) ! a)) = PARTIAL
            \<longrightarrow> completedAt (fst (heap (run tr) ! a)) \<noteq> None)
       \<and> (completedAt (fst (heap (run tr) ! a)) \<noteq> None
            \<longleftrightarrow> snd (heap (run tr) ! a) = Returned)"
proof -
  from assms have "cell_inv (fst (heap (run tr) ! a), snd (heap (run tr) ! a))"
    using cell_inv_run [of a tr] by simp
  then show ?thesis
    by (cases "snd (heap (run tr) ! a)") (auto simp: unfinished_def)
qed

theorem completedAt_when_finalized_witness:
  "0 < length (heap (run tr_partial))
   \<and> state (fst (heap (run tr_partial) ! 0)) = PARTIAL
   \<and> snd (heap (run tr_partial) ! 0) = Returned
   \<and> completedAt (fst (heap (run tr_partial) ! 0)) = Some 10"
proof -
  have h: "0 < length (heap (run tr_partial))" by (simp add: run_tr_partial)
  from completedAt_when_finalized [OF h] h show ?thesis by (simp add: run_tr_partial)
qed

text \<open>
  C10. \<open>cancelBatch\<close> on an id that is not in the job store returns \<open>false\<close>; it raises
  nothing and leaves the service as it was.
\<close>

theorem cancel_unknown_id:
  assumes "batchJobs svc bid = None"
  shows "cancelBatch now bid svc = (False, svc)"
  using assms by (simp add: cancelBatch_def)

theorem cancel_unknown_id_witness:
  "batchJobs (run tr_partial) ''batch_1_abc'' = None
   \<and> cancelBatch 11 ''batch_1_abc'' (run tr_partial) = (False, run tr_partial)"
proof -
  have h: "batchJobs (run tr_partial) ''batch_1_abc'' = None" by (simp add: run_tr_partial)
  from cancel_unknown_id [OF h] h show ?thesis by simp
qed

end
